theory Spec2Isabelle
  imports Main "HOL-Library.Word"
begin

unbundle bit_operations_syntax

chapter \<open>Tangerine consensus: configuration encoding, syncer and simulation checks\<close>

text \<open>
  A shallow embedding of the Go sources: \<^verbatim>\<open>core/types/config.go\<close> (the
  persisted form of a round configuration), the syncer (\<^verbatim>\<open>syncer.Consensus\<close>:
  \<^verbatim>\<open>SyncBlocks\<close>, \<^verbatim>\<open>findLatticeSyncBlock\<close>, \<^verbatim>\<open>checkIfSynced\<close>,
  \<^verbatim>\<open>isConfigChanged\<close>) and the simulation's \<^verbatim>\<open>VerifyTotalOrder\<close>.
  Go's fixed-width integers are words; a panic, an error return and a loop that may
  not end are values of the result types.
\<close>

section \<open>Machine types\<close>

type_synonym byte = "8 word"
type_synonym uint32 = "32 word"
type_synonym uint64 = "64 word"

text \<open>
  Go's \<^verbatim>\<open>int\<close> and \<^verbatim>\<open>int64\<close> (and \<^verbatim>\<open>time.Duration\<close>, an
  \<^verbatim>\<open>int64\<close> count of nanoseconds) are 64-bit words read in two's complement;
  the conversions \<^verbatim>\<open>uint64(x)\<close> keep the bits and \<^verbatim>\<open>uint32(x)\<close> keeps the
  low 32 of them.
\<close>

type_synonym go_int = "64 word"
type_synonym Duration = "64 word"

text \<open>
  A \<^verbatim>\<open>float32\<close> is represented by its IEEE-754 bit pattern, so
  \<^verbatim>\<open>math.Float32bits\<close>, a bit cast, is the identity on the representation.
  The comparison \<^verbatim>\<open>!=\<close> of two floats is not the comparison of the patterns:
  a NaN differs from everything, itself included, and the two zeros are equal.
\<close>

type_synonym float32 = "32 word"

definition Float32bits :: "float32 \<Rightarrow> uint32" where
  "Float32bits f = f"

definition isNaN32 :: "float32 \<Rightarrow> bool" where
  "isNaN32 f \<longleftrightarrow> f AND 0x7F800000 = 0x7F800000 \<and> f AND 0x007FFFFF \<noteq> 0"

definition isZero32 :: "float32 \<Rightarrow> bool" where
  "isZero32 f \<longleftrightarrow> f AND 0x7FFFFFFF = 0"

definition float32_ne :: "float32 \<Rightarrow> float32 \<Rightarrow> bool" where
  "float32_ne a b \<longleftrightarrow>
     isNaN32 a \<or> isNaN32 b \<or> (a \<noteq> b \<and> \<not> (isZero32 a \<and> isZero32 b))"

section \<open>\<^verbatim>\<open>core/types/config.go\<close>\<close>

record Config =
  NumChains :: uint32
  LambdaBA :: Duration
  LambdaDKG :: Duration
  K :: go_int
  PhiRatio :: float32
  NumNotarySet :: go_int
  NumWitnessSet :: go_int
  NumDKGSet :: go_int
  RoundInterval :: Duration
  MinBlockInterval :: Duration
  MaxBlockInterval :: Duration

text \<open>
  \<^verbatim>\<open>binary.LittleEndian.PutUint32\<close> and \<^verbatim>\<open>PutUint64\<close> of Go's standard
  library, on a fresh slice of 4 or 8 bytes: byte \<open>i\<close> is \<^verbatim>\<open>byte(v >> (8*i))\<close>.
  \<^verbatim>\<open>Uint32\<close> and \<^verbatim>\<open>Uint64\<close> read the first 4 or 8 bytes of a slice back.
\<close>

definition PutUint32 :: "uint32 \<Rightarrow> byte list" where
  "PutUint32 v = [ucast v, ucast (drop_bit 8 v), ucast (drop_bit 16 v), ucast (drop_bit 24 v)]"

definition PutUint64 :: "uint64 \<Rightarrow> byte list" where
  "PutUint64 v =
     [ucast v, ucast (drop_bit 8 v), ucast (drop_bit 16 v), ucast (drop_bit 24 v),
      ucast (drop_bit 32 v), ucast (drop_bit 40 v), ucast (drop_bit 48 v),
      ucast (drop_bit 56 v)]"

definition Uint32 :: "byte list \<Rightarrow> uint32" where
  "Uint32 b =
     ucast (b ! 0) OR push_bit 8 (ucast (b ! 1)) OR push_bit 16 (ucast (b ! 2))
       OR push_bit 24 (ucast (b ! 3))"

definition Uint64 :: "byte list \<Rightarrow> uint64" where
  "Uint64 b =
     ucast (b ! 0) OR push_bit 8 (ucast (b ! 1)) OR push_bit 16 (ucast (b ! 2))
       OR push_bit 24 (ucast (b ! 3)) OR push_bit 32 (ucast (b ! 4))
       OR push_bit 40 (ucast (b ! 5)) OR push_bit 48 (ucast (b ! 6))
       OR push_bit 56 (ucast (b ! 7))"

text \<open>\<^verbatim>\<open>Duration.Nanoseconds\<close> is \<^verbatim>\<open>int64(d)\<close>.\<close>

definition Nanoseconds :: "Duration \<Rightarrow> uint64" where
  "Nanoseconds d = d"

text \<open>
  \<^verbatim>\<open>Config.Bytes\<close>: eleven slices, appended in the order of the source. The
  capacity hint of \<^verbatim>\<open>make([]byte, 0, 40)\<close> does not bound the result.
\<close>

definition Bytes :: "Config \<Rightarrow> byte list" where
  "Bytes c =
     (let binaryNumChains = PutUint32 (NumChains c);
          binaryLambdaBA = PutUint64 (Nanoseconds (LambdaBA c));
          binaryLambdaDKG = PutUint64 (Nanoseconds (LambdaDKG c));
          binaryK = PutUint32 (ucast (K c));
          binaryPhiRatio = PutUint32 (Float32bits (PhiRatio c));
          binaryNumNotarySet = PutUint32 (ucast (NumNotarySet c));
          binaryNumWitnessSet = PutUint32 (ucast (NumWitnessSet c));
          binaryNumDKGSet = PutUint32 (ucast (NumDKGSet c));
          binaryRoundInterval = PutUint64 (Nanoseconds (RoundInterval c));
          binaryMinBlockInterval = PutUint64 (Nanoseconds (MinBlockInterval c));
          binaryMaxBlockInterval = PutUint64 (Nanoseconds (MaxBlockInterval c))
      in binaryNumChains @ binaryLambdaBA @ binaryLambdaDKG @ binaryK @ binaryPhiRatio
           @ binaryNumNotarySet @ binaryNumWitnessSet @ binaryNumDKGSet
           @ binaryRoundInterval @ binaryMinBlockInterval @ binaryMaxBlockInterval)"

section \<open>Blocks and the syncer's state\<close>

text \<open>
  \<^verbatim>\<open>common.Hash\<close> is an array of 32 bytes; its zero value \<^verbatim>\<open>common.Hash{}\<close> is the
  word 0.
\<close>

type_synonym Hash = "256 word"

text \<open>
  Modelled from the spec: \<^verbatim>\<open>common.Hash\<close> and its method \<^verbatim>\<open>Less\<close> are not part
  of the sources. The spec sorts a deliver set ascending by hash; the order taken here
  is the order of the 32 bytes read as one big-endian number.
\<close>

definition Less :: "Hash \<Rightarrow> Hash \<Rightarrow> bool" where
  "Less h other \<longleftrightarrow> h < other"

text \<open>
  Of \<^verbatim>\<open>types.Block\<close> the syncer reads the hash, the parent hash, the position
  \<^verbatim>\<open>{Round, ChainID, Height}\<close> and, of the finalization, the parent hash and the
  height in the compaction chain.
\<close>

record Position =
  Round :: uint64
  ChainID :: uint32
  Height :: uint64

record FinalizationResult =
  ParentHash :: Hash
  Height :: uint64

record Block =
  Hash :: Hash
  ParentHash :: Hash
  Position :: Position
  Finalization :: FinalizationResult

abbreviation finParent :: "Block \<Rightarrow> Hash" where
  "finParent b \<equiv> FinalizationResult.ParentHash (Finalization b)"

abbreviation finHeight :: "Block \<Rightarrow> uint64" where
  "finHeight b \<equiv> FinalizationResult.Height (Finalization b)"

abbreviation blockRound :: "Block \<Rightarrow> uint64" where
  "blockRound b \<equiv> Round (Position b)"

abbreviation chainOf :: "Block \<Rightarrow> uint32" where
  "chainOf b \<equiv> ChainID (Position b)"

text \<open>
  Modelled from the spec: \<^verbatim>\<open>types.Position\<close> and its method \<^verbatim>\<open>Older\<close> are not
  part of the sources. A position is \<^verbatim>\<open>{round, chain, height}\<close>, and of two positions
  of one chain the older one has the lower round, or the same round and the lower height.
  \<^verbatim>\<open>checkIfSynced\<close> below takes the comparison as a parameter; this definition
  instantiates it where a concrete one is needed.
\<close>

definition Older :: "Position \<Rightarrow> Position \<Rightarrow> bool" where
  "Older pos other \<longleftrightarrow>
     Round pos < Round other
       \<or> (Round pos = Round other \<and> Position.Height pos < Position.Height other)"

text \<open>
  The errors of the syncer, the error of a failed \<^verbatim>\<open>db.Get\<close>, and a run-time panic
  (an index out of range, a nil pointer, \<^verbatim>\<open>panic(err)\<close>).
\<close>

datatype error =
  ErrAlreadySynced | ErrGenesisBlockReached | ErrInvalidBlockOrder | ErrBlockDoesNotExist
  | Panic

text \<open>
  The fields of \<^verbatim>\<open>syncer.Consensus\<close> that the functions below read or write: the
  block database (a keyed retrieval), the per-chain queues \<^verbatim>\<open>con.blocks\<close> of
  confirmed blocks, the configurations by round, and the flag \<^verbatim>\<open>isSynced\<close>. The
  remaining fields stay in the record's extension.
\<close>

record Consensus =
  db :: "Hash \<rightharpoonup> Block"
  blocks :: "Block list list"
  configs :: "Config list"
  isSynced :: bool

section \<open>\<^verbatim>\<open>isConfigChanged\<close> and \<^verbatim>\<open>findLatticeSyncBlock\<close>\<close>

definition isConfigChanged :: "Config \<Rightarrow> Config \<Rightarrow> bool" where
  "isConfigChanged prev cur \<longleftrightarrow>
     K prev \<noteq> K cur \<or> NumChains prev \<noteq> NumChains cur
       \<or> float32_ne (PhiRatio prev) (PhiRatio cur)"

text \<open>
  The inner loop that looks for a round whose configuration equals the previous and the
  next one. \<open>Inr (Some r)\<close> is the \<^verbatim>\<open>break\<close> at round \<open>r\<close>, \<open>Inr None\<close> the
  \<^verbatim>\<open>return nil, nil\<close> at round 0, and \<open>Inl Panic\<close> an index outside
  \<^verbatim>\<open>con.configs\<close>. At round 0 the left operand of \<^verbatim>\<open>||\<close> is true and
  \<^verbatim>\<open>configs[round-1]\<close> is not read.
\<close>

function findRound :: "Config list \<Rightarrow> uint64 \<Rightarrow> error + uint64 option" where
  "findRound cfgs round =
     (if (round \<noteq> 0 \<and> \<not> unat (round - 1) < length cfgs)
         \<or> \<not> unat round < length cfgs \<or> \<not> unat (round + 1) < length cfgs
      then Inl Panic
      else let sameAsPrevRound =
                 (round = 0 \<or> \<not> isConfigChanged (cfgs ! unat (round - 1)) (cfgs ! unat round));
               sameAsNextRound =
                 (\<not> isConfigChanged (cfgs ! unat round) (cfgs ! unat (round + 1)))
           in if sameAsPrevRound \<and> sameAsNextRound then Inr (Some round)
              else if round = 0 then Inr None
              else findRound cfgs (round - 1))"
  by pat_completeness auto
termination
proof (relation "measure (\<lambda>(cfgs, round). unat round)")
  show "wf (measure (\<lambda>(cfgs :: Config list, round :: uint64). unat round))" by simp
next
  fix cfgs :: "Config list" and round :: uint64
  assume "round \<noteq> 0"
  then have "0 < unat round" by (simp add: unat_gt_0)
  then show "((cfgs, round - 1), (cfgs, round)) \<in> measure (\<lambda>(cfgs, round). unat round)"
    using \<open>round \<noteq> 0\<close> by (simp add: unat_minus_one)
qed

declare findRound.simps [simp del]

text \<open>
  The four walks along \<^verbatim>\<open>Finalization.ParentHash\<close>. Each may fail to end on a
  database whose parent links form a cycle, so each is a partial function: \<open>None\<close>
  is a walk that does not return.
\<close>

partial_function (option) walkToRound ::
  "(Hash \<rightharpoonup> Block) \<Rightarrow> uint64 \<Rightarrow> Block \<Rightarrow> (error + Block) option" where
  "walkToRound d round lastBlock =
     (if blockRound lastBlock = round then Some (Inr lastBlock)
      else if finParent lastBlock = 0 then Some (Inl ErrGenesisBlockReached)
      else case d (finParent lastBlock) of
             None \<Rightarrow> Some (Inl ErrBlockDoesNotExist)
           | Some b \<Rightarrow> walkToRound d round b)"

partial_function (option) findCut ::
  "(Hash \<rightharpoonup> Block) \<Rightarrow> Block \<Rightarrow> (error + Block) option" where
  "findCut d curBlock =
     (if finParent curBlock = 0 then Some (Inl ErrGenesisBlockReached)
      else case d (finParent curBlock) of
             None \<Rightarrow> Some (Inl ErrBlockDoesNotExist)
           | Some prevBlock \<Rightarrow>
               if \<not> Less (Hash prevBlock) (Hash curBlock) then Some (Inr prevBlock)
               else findCut d prevBlock)"

partial_function (option) findFirst ::
  "(Hash \<rightharpoonup> Block) \<Rightarrow> Block \<Rightarrow> (error + Block) option" where
  "findFirst d curBlock =
     (if finParent curBlock = 0 then Some (Inr curBlock)
      else case d (finParent curBlock) of
             None \<Rightarrow> Some (Inl ErrBlockDoesNotExist)
           | Some prevBlock \<Rightarrow>
               if \<not> Less (Hash prevBlock) (Hash curBlock) then Some (Inr curBlock)
               else findFirst d prevBlock)"

partial_function (option) sameRound ::
  "(Hash \<rightharpoonup> Block) \<Rightarrow> uint64 \<Rightarrow> Hash \<Rightarrow> Block \<Rightarrow> (error + bool) option" where
  "sameRound d round firstHash curBlock =
     (if blockRound curBlock \<noteq> round then Some (Inr False)
      else case d (finParent curBlock) of
             None \<Rightarrow> Some (Inl ErrBlockDoesNotExist)
           | Some b \<Rightarrow>
               if Hash b = firstHash then Some (Inr True)
               else sameRound d round firstHash b)"

text \<open>
  The outer loop. \<^verbatim>\<open>round\<close> is declared anew from \<^verbatim>\<open>lastBlock\<close> at the head of
  every iteration, so the \<^verbatim>\<open>round--\<close> that ends the body has no effect on the next
  one; what the next iteration keeps is \<^verbatim>\<open>lastBlock\<close>.
\<close>

partial_function (option) findLatticeSyncLoop ::
  "(Hash \<rightharpoonup> Block) \<Rightarrow> Config list \<Rightarrow> Block \<Rightarrow> (error + Block option) option" where
  "findLatticeSyncLoop d cfgs lastBlock =
     (case findRound cfgs (blockRound lastBlock) of
        Inl e \<Rightarrow> Some (Inl e)
      | Inr None \<Rightarrow> Some (Inr None)
      | Inr (Some round) \<Rightarrow>
          (case walkToRound d round lastBlock of
             None \<Rightarrow> None
           | Some (Inl e) \<Rightarrow> Some (Inl e)
           | Some (Inr lastBlock') \<Rightarrow>
               (case findCut d lastBlock' of
                  None \<Rightarrow> None
                | Some (Inl e) \<Rightarrow> Some (Inl e)
                | Some (Inr deliverSetLastBlock) \<Rightarrow>
                    (case findFirst d deliverSetLastBlock of
                       None \<Rightarrow> None
                     | Some (Inl e) \<Rightarrow> Some (Inl e)
                     | Some (Inr deliverSetFirstBlock) \<Rightarrow>
                         (case sameRound d round (Hash deliverSetFirstBlock)
                                 deliverSetLastBlock of
                            None \<Rightarrow> None
                          | Some (Inl e) \<Rightarrow> Some (Inl e)
                          | Some (Inr ok) \<Rightarrow>
                              if ok then Some (Inr (Some deliverSetFirstBlock))
                              else if round = 0 then Some (Inr None)
                              else findLatticeSyncLoop d cfgs lastBlock')))))"

text \<open>
  \<^verbatim>\<open>findLatticeSyncBlock\<close>: \<open>Some (Inr (Some b))\<close> is the sync block \<open>b\<close>,
  \<open>Some (Inr None)\<close> is \<^verbatim>\<open>(nil, nil)\<close>, \<open>Some (Inl e)\<close> an error or a panic
  (\<^verbatim>\<open>blocks[len(blocks)-1]\<close> of an empty slice).
\<close>

definition findLatticeSyncBlock ::
  "'a Consensus_scheme \<Rightarrow> Block list \<Rightarrow> (error + Block option) option" where
  "findLatticeSyncBlock con bs =
     (if bs = [] then Some (Inl Panic)
      else findLatticeSyncLoop (db con) (configs con) (last bs))"

text \<open>
  A round is config-stable when the loop of \<^verbatim>\<open>findRound\<close> breaks at it: its
  configuration is unchanged from the previous round (or it is round 0) and unchanged
  into the next.
\<close>

definition configStable :: "Config list \<Rightarrow> uint64 \<Rightarrow> bool" where
  "configStable cfgs r \<longleftrightarrow>
     (r = 0 \<or> \<not> isConfigChanged (cfgs ! unat (r - 1)) (cfgs ! unat r))
     \<and> \<not> isConfigChanged (cfgs ! unat r) (cfgs ! unat (r + 1))"

section \<open>\<^verbatim>\<open>checkIfSynced\<close>\<close>

text \<open>
  \<^verbatim>\<open>numChains\<close> is read from the configuration of the round of
  \<^verbatim>\<open>con.blocks[0][0]\<close>; each of the three index expressions panics out of range.
\<close>

definition numChainsOf :: "'a Consensus_scheme \<Rightarrow> error + uint32" where
  "numChainsOf con =
     (case blocks con of
        [] \<Rightarrow> Inl Panic
      | q # _ \<Rightarrow>
          (case q of
             [] \<Rightarrow> Inl Panic
           | b # _ \<Rightarrow>
               if unat (blockRound b) < length (configs con)
               then Inr (NumChains (configs con ! unat (blockRound b)))
               else Inl Panic))"

text \<open>
  The first loop collects the newest block of every chain, walking the compaction chain
  back from \<^verbatim>\<open>b\<close>. \<^verbatim>\<open>compactionTips[b.Position.ChainID]\<close> is read before the
  chain id is compared with \<^verbatim>\<open>numChains\<close>, so a chain id outside the slice panics.
  \<open>Some (Inr None)\<close> is the \<^verbatim>\<open>return\<close> at the block whose finalization parent hash
  is zero; a failed \<^verbatim>\<open>db.Get\<close> is \<^verbatim>\<open>panic(err)\<close>.
\<close>

partial_function (option) findTips ::
  "(Hash \<rightharpoonup> Block) \<Rightarrow> uint32 \<Rightarrow> Block option list \<Rightarrow> uint32 \<Rightarrow> Block
   \<Rightarrow> (error + Block option list option) option" where
  "findTips d numChains compactionTips tipCount b =
     (if \<not> tipCount < numChains then Some (Inr (Some compactionTips))
      else if \<not> unat (chainOf b) < length compactionTips then Some (Inl Panic)
      else
        let fresh = (compactionTips ! unat (chainOf b) = None \<and> chainOf b < numChains);
            compactionTips' =
              (if fresh then compactionTips[unat (chainOf b) := Some b] else compactionTips);
            tipCount' = (if fresh then tipCount + 1 else tipCount)
        in if finParent b = 0 then Some (Inr None)
           else case d (finParent b) of
                  None \<Rightarrow> Some (Inl Panic)
                | Some b1 \<Rightarrow> findTips d numChains compactionTips' tipCount' b1)"

text \<open>
  The second loop, over \<^verbatim>\<open>compactionTips\<close> by index: \<^verbatim>\<open>con.blocks[chainID]\<close>
  panics out of range, and \<^verbatim>\<open>b.Position\<close> on a nil tip panics. \<open>older p q\<close> stands
  for \<^verbatim>\<open>p.Older(&q)\<close>.
\<close>

fun overlapLoop ::
  "(Position \<Rightarrow> Position \<Rightarrow> bool) \<Rightarrow> Block list list \<Rightarrow> nat \<Rightarrow> Block option list \<Rightarrow> uint32
   \<Rightarrow> error + uint32" where
  "overlapLoop older qs chainID [] overlapCount = Inr overlapCount"
| "overlapLoop older qs chainID (t # ts) overlapCount =
     (if \<not> chainID < length qs then Inl Panic
      else case qs ! chainID of
             [] \<Rightarrow> overlapLoop older qs (Suc chainID) ts overlapCount
           | q # _ \<Rightarrow>
               (case t of
                  None \<Rightarrow> Inl Panic
                | Some b \<Rightarrow>
                    overlapLoop older qs (Suc chainID) ts
                      (if \<not> older (Position b) (Position q) then overlapCount + 1
                       else overlapCount)))"

definition checkIfSynced ::
  "(Position \<Rightarrow> Position \<Rightarrow> bool) \<Rightarrow> 'a Consensus_scheme \<Rightarrow> Block list
   \<Rightarrow> (error + 'a Consensus_scheme) option" where
  "checkIfSynced older con bs =
     (case numChainsOf con of
        Inl e \<Rightarrow> Some (Inl e)
      | Inr numChains \<Rightarrow>
          if bs = [] then Some (Inl Panic)
          else
            (case findTips (db con) numChains (replicate (unat numChains) None) 0 (last bs) of
               None \<Rightarrow> None
             | Some (Inl e) \<Rightarrow> Some (Inl e)
             | Some (Inr None) \<Rightarrow> Some (Inr con)
             | Some (Inr (Some compactionTips)) \<Rightarrow>
                 (case overlapLoop older (blocks con) 0 compactionTips 0 of
                    Inl e \<Rightarrow> Some (Inl e)
                  | Inr overlapCount \<Rightarrow>
                      Some (Inr (if overlapCount = numChains then con\<lparr>isSynced := True\<rparr>
                                 else con)))))"

text \<open>
  The compaction chain behind a block, as the database holds it: \<open>compactionChain d b anc\<close>
  says that following \<^verbatim>\<open>Finalization.ParentHash\<close> from \<open>b\<close> visits the blocks
  \<open>anc\<close> in turn and ends at a block whose parent hash is zero. The newest block of
  chain \<open>c\<close> among blocks listed newest first is the first one with that chain id.
\<close>

fun compactionChain :: "(Hash \<rightharpoonup> Block) \<Rightarrow> Block \<Rightarrow> Block list \<Rightarrow> bool" where
  "compactionChain d b [] \<longleftrightarrow> finParent b = 0"
| "compactionChain d b (p # ps) \<longleftrightarrow>
     finParent b \<noteq> 0 \<and> d (finParent b) = Some p \<and> compactionChain d p ps"

definition compactionTip :: "Block list \<Rightarrow> nat \<Rightarrow> Block option" where
  "compactionTip chain c = find (\<lambda>b. unat (chainOf b) = c) chain"

section \<open>\<^verbatim>\<open>SyncBlocks\<close>\<close>

text \<open>
  The check that the blocks are consecutive in compaction height; the addition is the
  \<^verbatim>\<open>uint64\<close> one.
\<close>

fun consecutive :: "Block list \<Rightarrow> bool" where
  "consecutive (a # b # rest) \<longleftrightarrow> finHeight b = finHeight a + 1 \<and> consecutive (b # rest)"
| "consecutive _ \<longleftrightarrow> True"

text \<open>
  \<^verbatim>\<open>SyncBlocks\<close> returns a \<^verbatim>\<open>*core.Consensus\<close> (here \<open>'c option\<close>, \<open>None\<close> for
  nil) and an error, and may change the syncer. After its three guards it sets up the
  configurations from governance, stores the blocks, drives the lattice and the
  agreement modules and may build the consensus object; these steps run on
  \<^verbatim>\<open>core.Lattice\<close>, \<^verbatim>\<open>core.Governance\<close> and goroutines that are not part of the
  sources, and are taken together as the parameter \<open>syncRest\<close>.
\<close>

definition SyncBlocks ::
  "('a Consensus_scheme \<Rightarrow> Block list \<Rightarrow> bool \<Rightarrow> (error + 'c option) \<times> 'a Consensus_scheme)
   \<Rightarrow> 'a Consensus_scheme \<Rightarrow> Block list \<Rightarrow> bool
   \<Rightarrow> (error + 'c option) \<times> 'a Consensus_scheme" where
  "SyncBlocks syncRest con bs latest =
     (if isSynced con then (Inl ErrAlreadySynced, con)
      else if bs = [] then (Inr None, con)
      else if \<not> consecutive bs then (Inl ErrInvalidBlockOrder, con)
      else syncRest con bs latest)"

section \<open>\<^verbatim>\<open>simulation.VerifyTotalOrder\<close>\<close>

text \<open>
  \<^verbatim>\<open>PeerTotalOrder\<close> maps a validator to a pointer to its \<^verbatim>\<open>TotalOrderResult\<close>,
  and \<^verbatim>\<open>VerifyTotalOrder\<close> writes through the pointers. The objects live in a heap;
  a pointer is an address, and nil is an address the heap does not map. The map is an
  association list, read in the order of one iteration over the Go map. Of
  \<^verbatim>\<open>TotalOrderResult\<close> the pending list and the statistics are left out: the
  function does not touch them.
\<close>

type_synonym ValidatorID = Hash
type_synonym addr = nat

record TotalOrderResult =
  validatorID :: ValidatorID
  hashList :: "Hash list"
  curID :: int

type_synonym PeerTotalOrder = "(ValidatorID \<times> addr) list"
type_synonym heap = "addr \<rightharpoonup> TotalOrderResult"

definition MaxInt32 :: nat where
  "MaxInt32 = 2147483647"

text \<open>The first loop: the least length, starting from \<^verbatim>\<open>math.MaxInt32\<close>.\<close>

fun commonLength :: "heap \<Rightarrow> PeerTotalOrder \<Rightarrow> nat \<Rightarrow> error + nat" where
  "commonLength h [] len = Inr len"
| "commonLength h ((vid, p) # rest) len =
     (case h p of
        None \<Rightarrow> Inl Panic
      | Some peerTotalOrder \<Rightarrow>
          commonLength h rest
            (if length (hashList peerTotalOrder) < len then length (hashList peerTotalOrder)
             else len))"

text \<open>The inner loop at index \<open>i\<close>: every peer's entry against \<open>hash\<close>.\<close>

fun compareAt :: "heap \<Rightarrow> PeerTotalOrder \<Rightarrow> nat \<Rightarrow> Hash \<Rightarrow> bool \<Rightarrow> error + bool" where
  "compareAt h [] i hash hasError = Inr hasError"
| "compareAt h ((vid, p) # rest) i hash hasError =
     (case h p of
        None \<Rightarrow> Inl Panic
      | Some peerTotalOrder \<Rightarrow>
          if \<not> i < length (hashList peerTotalOrder) then Inl Panic
          else compareAt h rest i hash
                 (if hashList peerTotalOrder ! i \<noteq> hash then True else hasError))"

text \<open>
  The outer loop from index \<open>i\<close>. \<^verbatim>\<open>totalOrder[id]\<close> of a validator that is not
  in the map is nil, and reading its \<^verbatim>\<open>hashList\<close> panics.
\<close>

function verifyFrom ::
  "heap \<Rightarrow> ValidatorID \<Rightarrow> PeerTotalOrder \<Rightarrow> nat \<Rightarrow> nat \<Rightarrow> bool \<Rightarrow> error + bool" where
  "verifyFrom h id' totalOrder len i hasError =
     (if i < len then
        (case map_of totalOrder id' of
           None \<Rightarrow> Inl Panic
         | Some p \<Rightarrow>
             (case h p of
                None \<Rightarrow> Inl Panic
              | Some own \<Rightarrow>
                  if \<not> i < length (hashList own) then Inl Panic
                  else (case compareAt h totalOrder i (hashList own ! i) hasError of
                          Inl e \<Rightarrow> Inl e
                        | Inr hasError' \<Rightarrow> verifyFrom h id' totalOrder len (i + 1) hasError')))
      else Inr hasError)"
  by pat_completeness auto
termination
  by (relation "measure (\<lambda>(h, id', totalOrder, len, i, hasError). len - i)") auto

declare verifyFrom.simps [simp del]

text \<open>
  The last loop: \<^verbatim>\<open>hashList = hashList[length:]\<close> through every pointer of the map;
  the slice expression panics when \<^verbatim>\<open>length\<close> exceeds the list's length.
\<close>

fun removeVerified :: "heap \<Rightarrow> PeerTotalOrder \<Rightarrow> nat \<Rightarrow> error + heap" where
  "removeVerified h [] len = Inr h"
| "removeVerified h ((vid, p) # rest) len =
     (case h p of
        None \<Rightarrow> Inl Panic
      | Some peerTotalOrder \<Rightarrow>
          if length (hashList peerTotalOrder) < len then Inl Panic
          else removeVerified
                 (h(p \<mapsto> peerTotalOrder\<lparr>hashList := drop len (hashList peerTotalOrder)\<rparr>))
                 rest len)"

text \<open>
  The result is the map as given, \<^verbatim>\<open>correct\<close>, \<^verbatim>\<open>length\<close>, and the heap after
  the writes.
\<close>

definition VerifyTotalOrder ::
  "heap \<Rightarrow> ValidatorID \<Rightarrow> PeerTotalOrder
   \<Rightarrow> error + (PeerTotalOrder \<times> bool \<times> nat) \<times> heap" where
  "VerifyTotalOrder h id' totalOrder =
     (case commonLength h totalOrder MaxInt32 of
        Inl e \<Rightarrow> Inl e
      | Inr len \<Rightarrow>
          (case verifyFrom h id' totalOrder len 0 False of
             Inl e \<Rightarrow> Inl e
           | Inr hasError \<Rightarrow>
               (case (if 0 < len then removeVerified h totalOrder len else Inr h) of
                  Inl e \<Rightarrow> Inl e
                | Inr h' \<Rightarrow> Inr ((totalOrder, \<not> hasError, len), h'))))"

text \<open>
  What the statements about \<^verbatim>\<open>VerifyTotalOrder\<close> speak of: the hash list behind a
  pointer, a map all of whose pointers are allocated, and the length the first loop
  arrives at, the least hash-list length or \<^verbatim>\<open>math.MaxInt32\<close> if that is smaller.
\<close>

definition peerList :: "heap \<Rightarrow> addr \<Rightarrow> Hash list" where
  "peerList h p = (case h p of None \<Rightarrow> [] | Some r \<Rightarrow> hashList r)"

definition allocated :: "heap \<Rightarrow> PeerTotalOrder \<Rightarrow> bool" where
  "allocated h m \<longleftrightarrow> list_all (\<lambda>(vid, p). h p \<noteq> None) m"

definition commonLen :: "heap \<Rightarrow> PeerTotalOrder \<Rightarrow> nat" where
  "commonLen h m = min MaxInt32 (Min ((\<lambda>p. length (peerList h p)) ` snd ` set m))"

section \<open>Auxiliary notions for the proofs\<close>

text \<open>
  One step of the first loop of \<^verbatim>\<open>checkIfSynced\<close> on the slice of tips, the slice
  after a list of blocks has been visited, the number of tips found, and the number of
  chains the second loop counts as overlapping.
\<close>

definition fillTip :: "Block option list \<Rightarrow> Block \<Rightarrow> Block option list" where
  "fillTip tips b =
     (if tips ! unat (chainOf b) = None then tips[unat (chainOf b) := Some b] else tips)"

definition tipsAfter :: "Block option list \<Rightarrow> Block list \<Rightarrow> Block option list" where
  "tipsAfter tips xs = foldl fillTip tips xs"

definition somes :: "Block option list \<Rightarrow> nat" where
  "somes tips = length (filter (\<lambda>t. t \<noteq> None) tips)"

fun countOverlap ::
  "(Position \<Rightarrow> Position \<Rightarrow> bool) \<Rightarrow> Block list list \<Rightarrow> nat \<Rightarrow> Block option list \<Rightarrow> nat" where
  "countOverlap older qs i [] = 0"
| "countOverlap older qs i (t # ts) =
     (if qs ! i \<noteq> [] \<and> \<not> older (Position (the t)) (Position (hd (qs ! i))) then 1 else 0)
       + countOverlap older qs (Suc i) ts"

section \<open>Concrete configurations, blocks, syncers and peers\<close>

text \<open>
  \<open>cfgWith n k\<close> is a configuration of \<open>n\<close> chains with \<^verbatim>\<open>K = k\<close> and
  \<^verbatim>\<open>PhiRatio = 0.667\<close> (bits \<^verbatim>\<open>0x3F2AC083\<close>); \<open>blockAt\<close> builds a block from its
  hash, round, chain, height, finalization parent hash and finalization height.
\<close>

definition cfgWith :: "uint32 \<Rightarrow> go_int \<Rightarrow> Config" where
  "cfgWith n k =
     \<lparr>NumChains = n, LambdaBA = 250000000, LambdaDKG = 1000000000, K = k,
      PhiRatio = 0x3F2AC083, NumNotarySet = 7, NumWitnessSet = 7, NumDKGSet = 7,
      RoundInterval = 1000000000000, MinBlockInterval = 1000000,
      MaxBlockInterval = 1000000000\<rparr>"

definition blockAt :: "Hash \<Rightarrow> uint64 \<Rightarrow> uint32 \<Rightarrow> uint64 \<Rightarrow> Hash \<Rightarrow> uint64 \<Rightarrow> Block" where
  "blockAt h r c ht fp fh =
     \<lparr>Hash = h, Block.ParentHash = 0,
      Position = \<lparr>Round = r, ChainID = c, Position.Height = ht\<rparr>,
      Finalization = \<lparr>FinalizationResult.ParentHash = fp, FinalizationResult.Height = fh\<rparr>\<rparr>"

text \<open>
  Two syncers whose configurations change at every round: the first knows rounds 0 and
  1, the second rounds 0 to 2.
\<close>

definition syncerK2 :: Consensus where
  "syncerK2 = \<lparr>db = Map.empty, blocks = [], configs = [cfgWith 4 1, cfgWith 4 2], isSynced = False\<rparr>"

definition syncerK3 :: Consensus where
  "syncerK3 =
     \<lparr>db = Map.empty, blocks = [], configs = [cfgWith 4 1, cfgWith 4 2, cfgWith 4 3],
      isSynced = False\<rparr>"

text \<open>
  A syncer of one chain: the queue of chain 0 starts at height 3, and the database holds
  the first block of the compaction chain (hash 11).
\<close>

definition syncerA :: Consensus where
  "syncerA =
     \<lparr>db = [11 \<mapsto> blockAt 11 0 0 0 0 0],
      blocks = [[blockAt 13 0 0 3 0 0]],
      configs = [cfgWith 1 1],
      isSynced = False\<rparr>"

text \<open>
  A syncer of two chains, both queues starting at height 1; the database holds the
  compaction blocks 12 (chain 0, height 1) and 11 (chain 0, height 0, the first one).
\<close>

definition syncerB :: Consensus where
  "syncerB =
     \<lparr>db = [12 \<mapsto> blockAt 12 0 0 1 11 1, 11 \<mapsto> blockAt 11 0 0 0 0 0],
      blocks = [[blockAt 21 0 0 1 0 0], [blockAt 22 0 1 1 0 0]],
      configs = [cfgWith 2 1],
      isSynced = False\<rparr>"

text \<open>A synced syncer, and a stand-in for the rest of \<^verbatim>\<open>SyncBlocks\<close>.\<close>

definition syncerDone :: Consensus where
  "syncerDone = syncerA\<lparr>isSynced := True\<rparr>"

definition restNone :: "Consensus \<Rightarrow> Block list \<Rightarrow> bool \<Rightarrow> (error + unit option) \<times> Consensus" where
  "restNone con bs latest = (Inr None, con\<lparr>configs := configs con @ [cfgWith 4 1]\<rparr>)"

text \<open>
  Two peers at the addresses 0 and 1 with hash lists of lengths 3 and 2, and one peer
  whose hash list has 2147483648 entries, one more than \<^verbatim>\<open>math.MaxInt32\<close>.
\<close>

definition peersA :: "PeerTotalOrder \<times> heap" where
  "peersA =
     ([(1, 0), (2, 1)],
      [0 \<mapsto> \<lparr>validatorID = 1, hashList = [5, 6, 7], curID = 2\<rparr>,
       1 \<mapsto> \<lparr>validatorID = 2, hashList = [5, 6], curID = 1\<rparr>])"

definition peersB :: "PeerTotalOrder \<times> heap" where
  "peersB =
     ([(1, 0)], [0 \<mapsto> \<lparr>validatorID = 1, hashList = replicate 2147483648 7, curID = 1\<rparr>])"

section \<open>Little-endian encoding\<close>

lemma length_PutUint32: "length (PutUint32 v) = 4"
  by (simp add: PutUint32_def)

lemma length_PutUint64: "length (PutUint64 v) = 8"
  by (simp add: PutUint64_def)

lemma bit_byte_at:
  fixes v :: "'a::len word"
  shows "bit (push_bit k (ucast (ucast (drop_bit k v) :: byte)) :: 'a word) n
         = (k \<le> n \<and> n < k + 8 \<and> bit v n)"
proof (cases "k \<le> n")
  case True
  then obtain m where m: "n = k + m" using le_Suc_ex by blast
  show ?thesis unfolding m by (auto simp: bit_simps dest: bit_imp_le_length)
next
  case False
  then show ?thesis by (simp add: bit_simps)
qed

lemma bit_byte_0:
  fixes v :: "'a::len word"
  shows "bit (ucast (ucast v :: byte) :: 'a word) n = (n < 8 \<and> bit v n)"
  using bit_byte_at [of 0 v n] by simp

lemma Uint32_PutUint32: "Uint32 (PutUint32 v @ rest) = v"
proof (rule bit_word_eqI)
  fix n assume "n < LENGTH(32)"
  then have "n < 32" by simp
  then consider "n < 8" | "8 \<le> n" "n < 16" | "16 \<le> n" "n < 24" | "24 \<le> n" "n < 32"
    by linarith
  then show "bit (Uint32 (PutUint32 v @ rest)) n = bit v n"
    unfolding PutUint32_def Uint32_def
    by cases (simp_all add: bit_or_iff bit_byte_at bit_byte_0)
qed

lemma Uint64_PutUint64: "Uint64 (PutUint64 v @ rest) = v"
proof (rule bit_word_eqI)
  fix n assume "n < LENGTH(64)"
  then have "n < 64" by simp
  then consider "n < 8" | "8 \<le> n" "n < 16" | "16 \<le> n" "n < 24" | "24 \<le> n" "n < 32"
    | "32 \<le> n" "n < 40" | "40 \<le> n" "n < 48" | "48 \<le> n" "n < 56" | "56 \<le> n" "n < 64"
    by linarith
  then show "bit (Uint64 (PutUint64 v @ rest)) n = bit v n"
    unfolding PutUint64_def Uint64_def
    by cases (simp_all add: bit_or_iff bit_byte_at bit_byte_0)
qed

lemma Uint32_PutUint32_end: "Uint32 (PutUint32 v) = v"
  using Uint32_PutUint32 [of v "[]"] by simp

lemma Uint64_PutUint64_end: "Uint64 (PutUint64 v) = v"
  using Uint64_PutUint64 [of v "[]"] by simp

section \<open>The persisted configuration\<close>

text \<open>
  C8. For every \<^verbatim>\<open>Config\<close>, \<^verbatim>\<open>Bytes\<close> returns exactly 64 bytes, and reading
  them back little-endian at the offsets of the layout gives the fields themselves (a
  duration as its 64 bits of nanoseconds, \<^verbatim>\<open>PhiRatio\<close> as its 32 IEEE-754 bits):
  \<^verbatim>\<open>NumChains\<close> (32 bits) at 0, \<^verbatim>\<open>LambdaBA\<close> (64 bits, nanoseconds) at 4,
  \<^verbatim>\<open>LambdaDKG\<close> at 12, \<^verbatim>\<open>K\<close> as a \<^verbatim>\<open>uint32\<close> at 20, the IEEE-754 bits of
  \<^verbatim>\<open>PhiRatio\<close> at 24, \<^verbatim>\<open>NumNotarySet\<close> at 28, \<^verbatim>\<open>NumWitnessSet\<close> at 32,
  \<^verbatim>\<open>NumDKGSet\<close> at 36 (each as a \<^verbatim>\<open>uint32\<close>), \<^verbatim>\<open>RoundInterval\<close> at 40,
  \<^verbatim>\<open>MinBlockInterval\<close> at 48 and \<^verbatim>\<open>MaxBlockInterval\<close> at 56 (64 bits,
  nanoseconds).
\<close>

theorem Bytes_layout:
  "length (Bytes c) = 64
   \<and> Uint32 (drop 0 (Bytes c)) = NumChains c
   \<and> Uint64 (drop 4 (Bytes c)) = LambdaBA c
   \<and> Uint64 (drop 12 (Bytes c)) = LambdaDKG c
   \<and> Uint32 (drop 20 (Bytes c)) = ucast (K c)
   \<and> Uint32 (drop 24 (Bytes c)) = PhiRatio c
   \<and> Uint32 (drop 28 (Bytes c)) = ucast (NumNotarySet c)
   \<and> Uint32 (drop 32 (Bytes c)) = ucast (NumWitnessSet c)
   \<and> Uint32 (drop 36 (Bytes c)) = ucast (NumDKGSet c)
   \<and> Uint64 (drop 40 (Bytes c)) = RoundInterval c
   \<and> Uint64 (drop 48 (Bytes c)) = MinBlockInterval c
   \<and> Uint64 (drop 56 (Bytes c)) = MaxBlockInterval c"
  by (simp add: Bytes_def Let_def Float32bits_def Nanoseconds_def length_PutUint32
      length_PutUint64 Uint32_PutUint32 Uint64_PutUint64 Uint64_PutUint64_end)

section \<open>The round search of \<^verbatim>\<open>findLatticeSyncBlock\<close>\<close>

lemma unat_plus_one_le: "unat (r + 1) \<le> unat r + 1" for r :: uint64
  by (simp add: unat_word_ariths)

lemma unat_minus_one_less: "r \<noteq> 0 \<Longrightarrow> unat (r - 1) < unat r" for r :: uint64
  by (simp add: unat_minus_one unat_gt_0)

lemma word_minus_one_le: "r \<noteq> 0 \<Longrightarrow> r - 1 \<le> r" for r :: uint64
  using unat_minus_one_less [of r] by (simp add: word_le_nat_alt)

text \<open>
  With the configurations loaded up to the round after \<open>round\<close> and no stable round at
  or below it, the search ends at round 0 with \<^verbatim>\<open>return nil, nil\<close>.
\<close>

lemma findRound_no_stable:
  "unat round + 1 < length cfgs \<Longrightarrow> \<forall>r\<le>round. \<not> configStable cfgs r
   \<Longrightarrow> findRound cfgs round = Inr None"
proof (induction cfgs round rule: findRound.induct)
  case (1 cfgs round)
  have in0: "unat round < length cfgs" using "1.prems"(1) by simp
  have in1: "unat (round + 1) < length cfgs"
    using "1.prems"(1) unat_plus_one_le [of round] by linarith
  have inp: "round \<noteq> 0 \<Longrightarrow> unat (round - 1) < length cfgs"
    using in0 unat_minus_one_less [of round] by linarith
  have unstable: "\<not> configStable cfgs round" using "1.prems"(2) by simp
  show ?case
  proof (cases "round = 0")
    case True
    with in0 in1 unstable show ?thesis
      by (subst findRound.simps) (simp add: configStable_def)
  next
    case False
    have prev: "unat (round - 1) + 1 < length cfgs"
      using in0 unat_minus_one_less [OF False] by linarith
    have below: "\<forall>r\<le>round - 1. \<not> configStable cfgs r"
      using "1.prems"(2) word_minus_one_le [OF False] by (meson order_trans)
    have "findRound cfgs (round - 1) = Inr None"
      using "1.IH" in0 in1 inp unstable False prev below
      by (simp add: configStable_def Let_def)
    with in0 in1 inp unstable False show ?thesis
      by (subst findRound.simps) (auto simp: configStable_def Let_def)
  qed
qed

text \<open>
  C6 (as amended). When the walk over the rounds, downward from the round of the latest
  compaction block, finds no round whose configuration agrees with the previous and the
  next round on \<^verbatim>\<open>(K, NumChains, PhiRatio)\<close> and reaches round 0, the call returns
  \<^verbatim>\<open>(nil, nil)\<close>: no sync block and no error. The configurations are loaded up to
  the round after the block's.
\<close>

theorem findLatticeSyncBlock_no_stable_round:
  assumes "bs \<noteq> []"
    and "unat (blockRound (last bs)) + 1 < length (configs con)"
    and "\<forall>r\<le>blockRound (last bs). \<not> configStable (configs con) r"
  shows "findLatticeSyncBlock con bs = Some (Inr None)"
  using assms findRound_no_stable [of "blockRound (last bs)" "configs con"]
  by (simp add: findLatticeSyncBlock_def findLatticeSyncLoop.simps)

text \<open>
  The theorem at a syncer whose configurations of rounds 0 and 1 differ in \<^verbatim>\<open>K\<close>,
  for a latest block of round 0.
\<close>

theorem findLatticeSyncBlock_no_stable_round_witness:
  "findLatticeSyncBlock syncerK2 [blockAt 7 0 0 0 0 0] = Some (Inr None)"
  using findLatticeSyncBlock_no_stable_round [of "[blockAt 7 0 0 0 0 0]" syncerK2]
  by (simp add: syncerK2_def blockAt_def cfgWith_def configStable_def isConfigChanged_def)

text \<open>
  C6 as stated fails: with configurations that change at every round and a latest block
  of round 1, neither round 1 nor round 0 is stable, the walk reaches round 0, and the
  call does not fail with \<^verbatim>\<open>ErrGenesisBlockReached\<close>; it returns \<^verbatim>\<open>(nil, nil)\<close>.
\<close>

theorem findLatticeSyncBlock_no_stable_round_counterexample:
  "\<not> configStable (configs syncerK3) 1 \<and> \<not> configStable (configs syncerK3) 0
   \<and> findLatticeSyncBlock syncerK3 [blockAt 7 1 0 0 0 0] \<noteq> Some (Inl ErrGenesisBlockReached)
   \<and> findLatticeSyncBlock syncerK3 [blockAt 7 1 0 0 0 0] = Some (Inr None)"
  by (simp add: syncerK3_def blockAt_def cfgWith_def configStable_def isConfigChanged_def
      findLatticeSyncBlock_def findLatticeSyncLoop.simps findRound.simps)

section \<open>The guards of \<^verbatim>\<open>SyncBlocks\<close>\<close>

text \<open>
  C10. On a syncer that is not yet synced, \<^verbatim>\<open>SyncBlocks\<close> with an empty slice returns
  \<^verbatim>\<open>(nil, nil)\<close> and leaves the syncer as it was; the test of \<^verbatim>\<open>isSynced\<close> comes
  first, so a synced syncer returns \<^verbatim>\<open>ErrAlreadySynced\<close> for every slice, the empty
  one included, and is left as it was.
\<close>

theorem SyncBlocks_empty:
  "(\<not> isSynced con \<longrightarrow> SyncBlocks syncRest con [] latest = (Inr None, con))
   \<and> (isSynced con \<longrightarrow> SyncBlocks syncRest con bs latest = (Inl ErrAlreadySynced, con))"
  by (simp add: SyncBlocks_def)

text \<open>
  The theorem at an unsynced and at a synced syncer, with a rest of the function that
  would change the syncer if it were reached.
\<close>

theorem SyncBlocks_empty_witness:
  "\<not> isSynced syncerA \<and> SyncBlocks restNone syncerA [] True = (Inr None, syncerA)
   \<and> isSynced syncerDone
   \<and> SyncBlocks restNone syncerDone [] True = (Inl ErrAlreadySynced, syncerDone)"
  using SyncBlocks_empty [of syncerA restNone True "[]"]
    SyncBlocks_empty [of syncerDone restNone True "[]"]
  by (simp add: syncerA_def syncerDone_def)

section \<open>The two loops of \<^verbatim>\<open>checkIfSynced\<close>\<close>

lemma somes_le: "somes tips \<le> length tips"
  by (simp add: somes_def)

lemma length_filter_full: "length (filter P xs) = length xs \<longleftrightarrow> (\<forall>x\<in>set xs. P x)"
proof (induction xs)
  case Nil
  then show ?case by simp
next
  case (Cons x xs)
  show ?case
  proof (cases "P x")
    case True
    with Cons show ?thesis by simp
  next
    case False
    have "length (filter P xs) \<noteq> Suc (length xs)"
      using length_filter_le [of P xs] by linarith
    with False show ?thesis by simp
  qed
qed

lemma somes_less_iff: "somes tips < length tips \<longleftrightarrow> None \<in> set tips"
proof -
  have "somes tips = length tips \<longleftrightarrow> (\<forall>t\<in>set tips. t \<noteq> None)"
    unfolding somes_def by (rule length_filter_full)
  also have "\<dots> \<longleftrightarrow> None \<notin> set tips" by metis
  finally show ?thesis using somes_le [of tips] by linarith
qed

lemma somes_update:
  "i < length tips \<Longrightarrow> tips ! i = None \<Longrightarrow> somes (tips[i := Some b]) = Suc (somes tips)"
  unfolding somes_def
proof (induction tips arbitrary: i)
  case Nil
  then show ?case by simp
next
  case (Cons t tips)
  then show ?case by (cases i) auto
qed

lemma tipsAfter_Nil: "tipsAfter tips [] = tips"
  by (simp add: tipsAfter_def)

lemma tipsAfter_Cons: "tipsAfter tips (x # xs) = tipsAfter (fillTip tips x) xs"
  by (simp add: tipsAfter_def)

lemma length_fillTip: "length (fillTip tips b) = length tips"
  by (simp add: fillTip_def)

lemma length_tipsAfter: "length (tipsAfter tips xs) = length tips"
  by (induction xs arbitrary: tips) (simp_all add: tipsAfter_Nil tipsAfter_Cons length_fillTip)

lemma fillTip_full: "None \<notin> set tips \<Longrightarrow> fillTip tips b = tips"
proof (cases "unat (chainOf b) < length tips")
  case True
  assume "None \<notin> set tips"
  with True have "tips ! unat (chainOf b) \<noteq> None" by (metis nth_mem)
  then show ?thesis by (auto simp: fillTip_def)
next
  case False
  then show ?thesis by (simp add: fillTip_def list_update_beyond)
qed

lemma tipsAfter_full: "None \<notin> set tips \<Longrightarrow> tipsAfter tips xs = tips"
  by (induction xs) (simp_all add: tipsAfter_Nil tipsAfter_Cons fillTip_full)

lemma somes_fillTip:
  "unat (chainOf b) < length tips \<Longrightarrow> tips ! unat (chainOf b) = None
   \<Longrightarrow> somes (fillTip tips b) = Suc (somes tips)"
  by (simp add: fillTip_def somes_update)

lemma unat_of_nat_below: "k \<le> unat n \<Longrightarrow> unat (of_nat k :: uint32) = k" for n :: uint32
proof -
  assume "k \<le> unat n"
  moreover have "unat n < 2 ^ LENGTH(32)" by (rule unsigned_less)
  ultimately have "k < 2 ^ LENGTH(32)" by linarith
  then show ?thesis by (simp add: unat_of_nat)
qed

lemma of_nat_less_iff_below:
  "k \<le> unat n \<Longrightarrow> (of_nat k :: uint32) < n \<longleftrightarrow> k < unat n" for n :: uint32
  by (simp add: word_less_nat_alt unat_of_nat_below)

lemma of_nat_eq_iff_below:
  "k \<le> unat n \<Longrightarrow> (of_nat k :: uint32) = n \<longleftrightarrow> k = unat n" for n :: uint32
proof
  assume "k \<le> unat n" and "(of_nat k :: uint32) = n"
  then show "k = unat n" using unat_of_nat_below [of k n] by simp
next
  assume "k = unat n"
  then show "(of_nat k :: uint32) = n" by simp
qed

lemma findTips_step:
  assumes len: "length tips = unat numChains" and inr: "chainOf b < numChains"
  shows "findTips d numChains tips (of_nat (somes tips)) b =
     (if None \<notin> set tips then Some (Inr (Some tips))
      else if finParent b = 0 then Some (Inr None)
      else case d (finParent b) of
             None \<Rightarrow> Some (Inl Panic)
           | Some b1 \<Rightarrow>
               findTips d numChains (fillTip tips b) (of_nat (somes (fillTip tips b))) b1)"
proof -
  have le: "somes tips \<le> unat numChains" using somes_le [of tips] len by simp
  have cond: "(of_nat (somes tips) :: uint32) < numChains \<longleftrightarrow> None \<in> set tips"
    using of_nat_less_iff_below [OF le] somes_less_iff [of tips] len by simp
  have idx: "unat (chainOf b) < length tips"
    using inr len by (simp add: word_less_nat_alt)
  show ?thesis
  proof (cases "tips ! unat (chainOf b) = None")
    case True
    have "(of_nat (somes tips) :: uint32) + 1 = of_nat (somes (fillTip tips b))"
      using somes_fillTip [OF idx True] by simp
    moreover have "tips[unat (chainOf b) := Some b] = fillTip tips b"
      using True by (simp add: fillTip_def)
    ultimately show ?thesis
      using cond idx inr True by (subst findTips.simps) (simp add: Let_def split: option.split)
  next
    case False
    then obtain y where y: "tips ! unat (chainOf b) = Some y" by auto
    then have "fillTip tips b = tips" by (simp add: fillTip_def)
    then show ?thesis
      using cond idx inr y by (subst findTips.simps) (simp add: Let_def split: option.split)
  qed
qed

lemma findTips_chain:
  "compactionChain d b anc \<Longrightarrow> length tips = unat numChains
   \<Longrightarrow> \<forall>x\<in>set (b # anc). chainOf x < numChains
   \<Longrightarrow> findTips d numChains tips (of_nat (somes tips)) b =
       Some (Inr (if None \<in> set (tipsAfter tips (butlast (b # anc))) then None
                  else Some (tipsAfter tips (butlast (b # anc)))))"
proof (induction anc arbitrary: b tips)
  case Nil
  then show ?case
    by (simp add: findTips_step tipsAfter_Nil)
next
  case (Cons p ps)
  show ?case
  proof (cases "None \<in> set tips")
    case False
    with Cons.prems show ?thesis
      by (simp add: findTips_step tipsAfter_full)
  next
    case True
    have "findTips d numChains (fillTip tips b) (of_nat (somes (fillTip tips b))) p =
          Some (Inr (if None \<in> set (tipsAfter (fillTip tips b) (butlast (p # ps))) then None
                     else Some (tipsAfter (fillTip tips b) (butlast (p # ps)))))"
      using Cons.prems by (intro Cons.IH) (simp_all add: length_fillTip)
    with True Cons.prems show ?thesis
      by (simp add: findTips_step tipsAfter_Cons)
  qed
qed

lemma compactionTip_Cons:
  "compactionTip (x # xs) c = (if unat (chainOf x) = c then Some x else compactionTip xs c)"
  by (simp add: compactionTip_def)

lemma fillTip_nth:
  "c < length tips \<Longrightarrow>
   fillTip tips x ! c = (if unat (chainOf x) = c \<and> tips ! c = None then Some x else tips ! c)"
  by (cases "unat (chainOf x) = c") (auto simp: fillTip_def)

lemma tipsAfter_nth:
  "c < length tips \<Longrightarrow>
   tipsAfter tips xs ! c = (case tips ! c of Some t \<Rightarrow> Some t | None \<Rightarrow> compactionTip xs c)"
proof (induction xs arbitrary: tips)
  case Nil
  then show ?case by (simp add: tipsAfter_Nil compactionTip_def split: option.split)
next
  case (Cons x xs)
  have "tipsAfter (fillTip tips x) xs ! c =
        (case fillTip tips x ! c of Some t \<Rightarrow> Some t | None \<Rightarrow> compactionTip xs c)"
    using Cons.prems by (intro Cons.IH) (simp add: length_fillTip)
  then show ?case
    using Cons.prems
    by (simp add: tipsAfter_Cons fillTip_nth compactionTip_Cons split: option.split)
qed

lemma tipsAfter_replicate_nth:
  "c < n \<Longrightarrow> tipsAfter (replicate n None) xs ! c = compactionTip xs c"
  by (simp add: tipsAfter_nth)

lemma somes_replicate: "somes (replicate n None) = 0"
  by (simp add: somes_def)

lemma overlapLoop_count:
  "i + length ts \<le> length qs \<Longrightarrow> None \<notin> set ts
   \<Longrightarrow> overlapLoop older qs i ts cnt = Inr (cnt + of_nat (countOverlap older qs i ts))"
proof (induction ts arbitrary: i cnt)
  case Nil
  then show ?case by simp
next
  case (Cons t ts)
  from Cons.prems obtain b where t: "t = Some b" by (cases t) auto
  have i: "i < length qs" using Cons.prems by simp
  have IH: "\<And>cnt'. overlapLoop older qs (Suc i) ts cnt' =
              Inr (cnt' + of_nat (countOverlap older qs (Suc i) ts))"
    using Cons.prems by (intro Cons.IH) auto
  show ?case
    using i t by (cases "qs ! i") (simp_all add: IH)
qed

lemma all_less_2: "(\<forall>c<2. P c) \<longleftrightarrow> P 0 \<and> P (Suc 0)" for P :: "nat \<Rightarrow> bool"
  by (metis less_2_cases_iff)

lemma countOverlap_le: "countOverlap older qs i ts \<le> length ts"
  by (induction ts arbitrary: i) (auto simp: le_SucI)

lemma all_less_Suc_shift: "(\<forall>j<Suc n. P j) \<longleftrightarrow> P 0 \<and> (\<forall>j<n. P (Suc j))"
  by (metis less_Suc_eq_0_disj Suc_less_eq zero_less_Suc)

lemma countOverlap_full:
  "countOverlap older qs i ts = length ts \<longleftrightarrow>
   (\<forall>j<length ts. qs ! (i + j) \<noteq> []
        \<and> \<not> older (Position (the (ts ! j))) (Position (hd (qs ! (i + j)))))"
proof (induction ts arbitrary: i)
  case Nil
  then show ?case by simp
next
  case (Cons t ts)
  have le: "countOverlap older qs (Suc i) ts \<le> length ts" by (rule countOverlap_le)
  show ?case
    using le Cons.IH [of "Suc i"]
    by (simp add: all_less_Suc_shift)
qed

text \<open>
  C7 (as amended). \<^verbatim>\<open>checkIfSynced\<close> marks the syncer synced exactly when, for
  every one of the \<^verbatim>\<open>numChains\<close> chains, the walk back from the last given block
  finds a block of that chain before it reaches the block whose finalization parent hash
  is zero, the syncer's queue of the chain is not empty, and the newest compaction block
  of the chain is not older (by position) than the oldest block of the queue; otherwise
  the syncer is left as it was. This is stated for a compaction chain that the database
  holds back to its first block and whose chain ids are below \<^verbatim>\<open>numChains\<close>, and for
  a syncer with a queue for each chain; \<open>older p q\<close> stands for \<^verbatim>\<open>p.Older(&q)\<close>.
\<close>

theorem checkIfSynced_overlap:
  assumes nc: "numChainsOf con = Inr numChains"
    and ne: "bs \<noteq> []"
    and chain: "compactionChain (db con) (last bs) anc"
    and ids: "\<forall>b\<in>set (last bs # anc). chainOf b < numChains"
    and queues: "unat numChains \<le> length (blocks con)"
  shows "checkIfSynced older con bs =
     Some (Inr (if (\<forall>c<unat numChains. \<exists>tip q qs.
                      compactionTip (butlast (last bs # anc)) c = Some tip
                      \<and> blocks con ! c = q # qs
                      \<and> \<not> older (Position tip) (Position q))
                then con\<lparr>isSynced := True\<rparr> else con))"
proof -
  define n where "n = unat numChains"
  define walked where "walked = butlast (last bs # anc)"
  define t where "t = tipsAfter (replicate n None) walked"
  define Q where "Q \<longleftrightarrow> (\<forall>c<n. \<exists>tip q qs. compactionTip walked c = Some tip
                      \<and> blocks con ! c = q # qs \<and> \<not> older (Position tip) (Position q))"
  have len: "length t = n" by (simp add: t_def length_tipsAfter)
  have nth: "\<And>c. c < n \<Longrightarrow> t ! c = compactionTip walked c"
    by (simp add: t_def tipsAfter_replicate_nth)
  have "findTips (db con) numChains (replicate n None) (of_nat (somes (replicate n None)))
          (last bs) =
        Some (Inr (if None \<in> set (tipsAfter (replicate n None) (butlast (last bs # anc)))
                   then None
                   else Some (tipsAfter (replicate n None) (butlast (last bs # anc)))))"
    using chain ids by (intro findTips_chain) (simp_all add: n_def)
  then have ft: "findTips (db con) numChains (replicate (unat numChains) None) 0 (last bs) =
            Some (Inr (if None \<in> set t then None else Some t))"
    unfolding somes_replicate t_def walked_def n_def by simp
  have "checkIfSynced older con bs = Some (Inr (if Q then con\<lparr>isSynced := True\<rparr> else con))"
  proof (cases "None \<in> set t")
    case True
    then obtain c where c: "c < n" "t ! c = None"
      using len by (metis in_set_conv_nth)
    then have "compactionTip walked c = None" using nth by simp
    with c have "\<not> Q" unfolding Q_def by auto
    with True ft nc ne show ?thesis
      by (simp add: checkIfSynced_def)
  next
    case False
    define k where "k = countOverlap older (blocks con) 0 t"
    have kn: "k \<le> unat numChains"
      using countOverlap_le [of older "blocks con" 0 t] len by (simp add: k_def n_def)
    have ol: "overlapLoop older (blocks con) 0 t 0 = Inr (of_nat k)"
      using overlapLoop_count [of 0 t "blocks con" older 0] False len queues
      by (simp add: k_def n_def)
    have some: "\<And>c. c < n \<Longrightarrow> \<exists>tip. t ! c = Some tip"
      using False len by (metis nth_mem not_None_eq)
    have "k = n \<longleftrightarrow> (\<forall>j<n. blocks con ! j \<noteq> []
              \<and> \<not> older (Position (the (t ! j))) (Position (hd (blocks con ! j))))"
      using countOverlap_full [of older "blocks con" 0 t] len by (simp add: k_def)
    also have "\<dots> \<longleftrightarrow> Q"
      unfolding Q_def
    proof (intro all_cong imp_cong refl)
      fix c assume c: "c < n"
      from some [OF c] obtain tip where tip: "t ! c = Some tip" by blast
      with nth [OF c] have tip': "compactionTip walked c = Some tip" by simp
      show "(blocks con ! c \<noteq> []
              \<and> \<not> older (Position (the (t ! c))) (Position (hd (blocks con ! c))))
            \<longleftrightarrow> (\<exists>tip q qs. compactionTip walked c = Some tip
                      \<and> blocks con ! c = q # qs \<and> \<not> older (Position tip) (Position q))"
        using tip tip' by (cases "blocks con ! c") auto
    qed
    finally have "k = n \<longleftrightarrow> Q" .
    then have full: "(of_nat k :: uint32) = numChains \<longleftrightarrow> Q"
      using of_nat_eq_iff_below [OF kn] by (simp add: n_def)
    from False ft nc ne ol full show ?thesis
      by (simp add: checkIfSynced_def)
  qed
  then show ?thesis unfolding Q_def n_def walked_def .
qed

text \<open>
  The theorem at a syncer of two chains whose queues start at height 1, for a compaction
  chain with the blocks 13 (chain 1, height 1), 12 (chain 0, height 1) and 11.
\<close>

theorem checkIfSynced_overlap_witness:
  "checkIfSynced Older syncerB [blockAt 13 0 1 1 12 2] = Some (Inr (syncerB\<lparr>isSynced := True\<rparr>))"
  using checkIfSynced_overlap
    [of syncerB 2 "[blockAt 13 0 1 1 12 2]" "[blockAt 12 0 0 1 11 1, blockAt 11 0 0 0 0 0]" Older]
  by (simp add: syncerB_def numChainsOf_def cfgWith_def blockAt_def compactionTip_def
      Older_def all_less_2)

text \<open>
  C7 as stated fails: it asks that the oldest queued block be not older than the newest
  compaction block of its chain. Here the oldest queued block of chain 0 (height 3) is
  older than the newest compaction block of chain 0 (height 5), and the syncer marks
  itself synced.
\<close>

theorem checkIfSynced_overlap_counterexample:
  "Older (Position (blockAt 13 0 0 3 0 0)) (Position (blockAt 15 0 0 5 11 1))
   \<and> checkIfSynced Older syncerA [blockAt 15 0 0 5 11 1]
       = Some (Inr (syncerA\<lparr>isSynced := True\<rparr>))"
  by (simp add: syncerA_def checkIfSynced_def numChainsOf_def cfgWith_def blockAt_def
      Older_def findTips.simps)

section \<open>The three loops of \<^verbatim>\<open>VerifyTotalOrder\<close>\<close>

lemma allocated_iff: "allocated h m \<longleftrightarrow> (\<forall>p\<in>snd ` set m. h p \<noteq> None)"
  by (auto simp: allocated_def list_all_iff)

lemma Min_insert_min:
  "finite S \<Longrightarrow> Min (insert (min a b) S) = min b (Min (insert a S))" for a b :: nat
  by (cases "S = {}") (simp_all add: min.commute min.left_commute min.assoc)

lemma commonLength_Min:
  "allocated h m \<Longrightarrow>
   commonLength h m len = Inr (Min (insert len ((\<lambda>p. length (peerList h p)) ` snd ` set m)))"
proof (induction m arbitrary: len)
  case Nil
  then show ?case by simp
next
  case (Cons e m)
  obtain vid p where e: "e = (vid, p)" by (cases e)
  from Cons.prems e obtain r where r: "h p = Some r" and rest: "allocated h m"
    by (auto simp: allocated_def)
  have "commonLength h (e # m) len = commonLength h m (min (length (hashList r)) len)"
    using e r by (simp add: min_def)
  also have "\<dots> = Inr (Min (insert (min (length (hashList r)) len)
                       ((\<lambda>p. length (peerList h p)) ` snd ` set m)))"
    using rest by (rule Cons.IH)
  also have "Min (insert (min (length (hashList r)) len)
                       ((\<lambda>p. length (peerList h p)) ` snd ` set m))
      = Min (insert len ((\<lambda>p. length (peerList h p)) ` snd ` set (e # m)))"
    using e r by (simp add: Min_insert_min peerList_def insert_commute)
  finally show ?case .
qed

lemma compareAt_result:
  "allocated h m \<Longrightarrow> \<forall>p\<in>snd ` set m. i < length (peerList h p)
   \<Longrightarrow> compareAt h m i hash hasError =
       Inr (hasError \<or> (\<exists>p\<in>snd ` set m. peerList h p ! i \<noteq> hash))"
proof (induction m arbitrary: hasError)
  case Nil
  then show ?case by simp
next
  case (Cons e m)
  obtain vid p where e: "e = (vid, p)" by (cases e)
  from Cons.prems e obtain r where r: "h p = Some r" and rest: "allocated h m"
    by (auto simp: allocated_def)
  have i: "i < length (hashList r)" using Cons.prems(2) e r by (simp add: peerList_def)
  have IH: "\<And>he. compareAt h m i hash he =
              Inr (he \<or> (\<exists>p\<in>snd ` set m. peerList h p ! i \<noteq> hash))"
    using rest Cons.prems(2) by (intro Cons.IH) auto
  show ?case using e r i by (auto simp: IH peerList_def)
qed

lemma verifyFrom_result:
  assumes alloc: "allocated h m"
    and self: "map_of m id' = Some self"
    and short: "\<forall>p\<in>snd ` set m. len \<le> length (peerList h p)"
  shows "verifyFrom h id' m len i hasError =
     Inr (hasError \<or> (\<exists>j. i \<le> j \<and> j < len
            \<and> (\<exists>p\<in>snd ` set m. peerList h p ! j \<noteq> peerList h self ! j)))"
proof (induction "len - i" arbitrary: i hasError)
  case 0
  then have "\<not> i < len" by simp
  then show ?case by (subst verifyFrom.simps) auto
next
  case (Suc k)
  then have i: "i < len" by simp
  have mem: "self \<in> snd ` set m" using self by (metis map_of_SomeD snd_conv image_eqI)
  then obtain own where own: "h self = Some own"
    using alloc by (auto simp: allocated_def list_all_iff)
  have own_list: "peerList h self = hashList own" using own by (simp add: peerList_def)
  have i_own: "i < length (hashList own)" using short mem i own_list by fastforce
  have all_i: "\<forall>p\<in>snd ` set m. i < length (peerList h p)" using short i by fastforce
  have cmp: "compareAt h m i (hashList own ! i) hasError =
             Inr (hasError \<or> (\<exists>p\<in>snd ` set m. peerList h p ! i \<noteq> hashList own ! i))"
    using alloc all_i by (rule compareAt_result)
  have "k = len - (i + 1)" using Suc.hyps(2) by simp
  then have rec: "\<And>he. verifyFrom h id' m len (i + 1) he =
     Inr (he \<or> (\<exists>j. i + 1 \<le> j \<and> j < len
            \<and> (\<exists>p\<in>snd ` set m. peerList h p ! j \<noteq> peerList h self ! j)))"
    by (rule Suc.hyps(1))
  let ?diff = "\<lambda>j. \<exists>p\<in>snd ` set m. peerList h p ! j \<noteq> peerList h self ! j"
  have "verifyFrom h id' m len i hasError = verifyFrom h id' m len (i + 1) (hasError \<or> ?diff i)"
    using i self own i_own cmp by (subst verifyFrom.simps) (simp add: own_list)
  also have "\<dots> = Inr ((hasError \<or> ?diff i) \<or> (\<exists>j. i + 1 \<le> j \<and> j < len \<and> ?diff j))"
    by (rule rec)
  also have "((hasError \<or> ?diff i) \<or> (\<exists>j. i + 1 \<le> j \<and> j < len \<and> ?diff j))
      \<longleftrightarrow> (hasError \<or> (\<exists>j. i \<le> j \<and> j < len \<and> ?diff j))"
  proof -
    have "(\<exists>j. i \<le> j \<and> j < len \<and> ?diff j) \<longleftrightarrow> ?diff i \<or> (\<exists>j. i + 1 \<le> j \<and> j < len \<and> ?diff j)"
      (is "?L \<longleftrightarrow> ?R")
    proof
      assume ?L
      then obtain j where j: "i \<le> j" "j < len" "?diff j" by blast
      show ?R
      proof (cases "j = i")
        case True
        with j show ?thesis by blast
      next
        case False
        with j have "i + 1 \<le> j" by linarith
        with j show ?thesis by blast
      qed
    next
      assume ?R
      then show ?L
      proof
        assume "?diff i"
        with i show ?L by blast
      next
        assume "\<exists>j. i + 1 \<le> j \<and> j < len \<and> ?diff j"
        then obtain j where "i + 1 \<le> j" "j < len" "?diff j" by blast
        then have "i \<le> j \<and> j < len \<and> ?diff j" by simp
        then show ?L by blast
      qed
    qed
    then show ?thesis by blast
  qed
  finally show ?case .
qed

lemma removeVerified_result:
  "distinct (map snd m) \<Longrightarrow> allocated h m
   \<Longrightarrow> \<forall>p\<in>snd ` set m. len \<le> length (peerList h p)
   \<Longrightarrow> removeVerified h m len =
       Inr (\<lambda>a. if a \<in> snd ` set m
                then map_option (\<lambda>r. r\<lparr>hashList := drop len (hashList r)\<rparr>) (h a)
                else h a)"
proof (induction m arbitrary: h)
  case Nil
  then show ?case by simp
next
  case (Cons e m)
  obtain vid p where e: "e = (vid, p)" by (cases e)
  from Cons.prems e obtain r where r: "h p = Some r" and rest: "allocated h m"
    by (auto simp: allocated_def)
  have fresh: "p \<notin> snd ` set m" using Cons.prems(1) e by auto
  have len: "len \<le> length (hashList r)" using Cons.prems(3) e r by (simp add: peerList_def)
  define h1 where "h1 = h(p \<mapsto> r\<lparr>hashList := drop len (hashList r)\<rparr>)"
  have same: "\<And>q. q \<in> snd ` set m \<Longrightarrow> h1 q = h q" using fresh by (auto simp: h1_def)
  have alloc1: "allocated h1 m"
    using rest same by (simp add: allocated_iff)
  have short1: "\<forall>q\<in>snd ` set m. len \<le> length (peerList h1 q)"
    using Cons.prems(3) same by (simp add: peerList_def)
  have "removeVerified h (e # m) len = removeVerified h1 m len"
    using e r len by (simp add: h1_def)
  also have "\<dots> = Inr (\<lambda>a. if a \<in> snd ` set m
                then map_option (\<lambda>r. r\<lparr>hashList := drop len (hashList r)\<rparr>) (h1 a)
                else h1 a)"
    using Cons.prems(1) alloc1 short1 by (intro Cons.IH) simp_all
  also have "(\<lambda>a. if a \<in> snd ` set m
                then map_option (\<lambda>r. r\<lparr>hashList := drop len (hashList r)\<rparr>) (h1 a)
                else h1 a)
      = (\<lambda>a. if a \<in> snd ` set (e # m)
                then map_option (\<lambda>r. r\<lparr>hashList := drop len (hashList r)\<rparr>) (h a)
                else h a)"
    using e r fresh same by (auto simp: h1_def fun_eq_iff)
  finally show ?case .
qed

lemma VerifyTotalOrder_result:
  assumes ne: "m \<noteq> []"
    and objs: "distinct (map snd m)"
    and alloc: "allocated h m"
    and self: "map_of m id' = Some self"
  shows "VerifyTotalOrder h id' m =
     Inr ((m,
           (\<forall>i<commonLen h m. \<forall>p\<in>snd ` set m. peerList h p ! i = peerList h self ! i),
           commonLen h m),
          (\<lambda>a. if a \<in> snd ` set m
               then map_option (\<lambda>r. r\<lparr>hashList := drop (commonLen h m) (hashList r)\<rparr>) (h a)
               else h a))"
proof -
  define S where "S = (\<lambda>p. length (peerList h p)) ` snd ` set m"
  define L where "L = commonLen h m"
  have S: "finite S" "S \<noteq> {}" using ne by (simp_all add: S_def)
  have L: "L = Min (insert MaxInt32 S)"
    using S by (simp add: L_def commonLen_def S_def)
  have len: "commonLength h m MaxInt32 = Inr L"
    using commonLength_Min [OF alloc, of MaxInt32] by (simp add: L S_def)
  have short: "\<forall>p\<in>snd ` set m. L \<le> length (peerList h p)"
  proof
    fix p assume "p \<in> snd ` set m"
    then have "length (peerList h p) \<in> S" by (simp add: S_def)
    with S(1) have "Min S \<le> length (peerList h p)" by (rule Min_le)
    then show "L \<le> length (peerList h p)" by (simp add: L_def commonLen_def S_def)
  qed
  have ver: "verifyFrom h id' m L 0 False =
     Inr (\<exists>j. j < L \<and> (\<exists>p\<in>snd ` set m. peerList h p ! j \<noteq> peerList h self ! j))"
    using verifyFrom_result [OF alloc self short, of 0 False] by simp
  have rem: "(if 0 < L then removeVerified h m L else Inr h) =
     Inr (\<lambda>a. if a \<in> snd ` set m
              then map_option (\<lambda>r. r\<lparr>hashList := drop L (hashList r)\<rparr>) (h a) else h a)"
  proof (cases "0 < L")
    case True
    then show ?thesis using removeVerified_result [OF objs alloc short] by simp
  next
    case False
    then have "(\<lambda>a. if a \<in> snd ` set m
              then map_option (\<lambda>r. r\<lparr>hashList := drop L (hashList r)\<rparr>) (h a) else h a) = h"
      by (auto simp: fun_eq_iff option.map_ident)
    with False show ?thesis by simp
  qed
  have "VerifyTotalOrder h id' m =
     Inr ((m, \<not> (\<exists>j. j < L \<and> (\<exists>p\<in>snd ` set m. peerList h p ! j \<noteq> peerList h self ! j)), L),
          (\<lambda>a. if a \<in> snd ` set m
               then map_option (\<lambda>r. r\<lparr>hashList := drop L (hashList r)\<rparr>) (h a) else h a))"
    unfolding VerifyTotalOrder_def by (simp only: len ver rem sum.case)
  moreover have "(\<not> (\<exists>j. j < L \<and> (\<exists>p\<in>snd ` set m. peerList h p ! j \<noteq> peerList h self ! j)))
      \<longleftrightarrow> (\<forall>i<L. \<forall>p\<in>snd ` set m. peerList h p ! i = peerList h self ! i)"
    by blast
  ultimately show ?thesis unfolding L_def by simp
qed

text \<open>
  Where some hash list has at most \<^verbatim>\<open>math.MaxInt32\<close> entries the starting value of
  the first loop is never the result, and the length computed is the least hash-list
  length.
\<close>

lemma commonLen_least:
  assumes "m \<noteq> []"
    and "\<exists>p\<in>snd ` set m. length (peerList h p) \<le> MaxInt32"
  shows "commonLen h m = Min ((\<lambda>p. length (peerList h p)) ` snd ` set m)"
proof -
  from assms(2) obtain p where p: "p \<in> snd ` set m" "length (peerList h p) \<le> MaxInt32"
    by blast
  have "Min ((\<lambda>p. length (peerList h p)) ` snd ` set m) \<le> length (peerList h p)"
    using p(1) by (intro Min_le) simp_all
  with p(2) show ?thesis by (simp add: commonLen_def)
qed

text \<open>
  For a non-empty map of peers to distinct, allocated \<^verbatim>\<open>TotalOrderResult\<close> objects
  that has an entry for the calling peer, and with some hash list of at most
  \<^verbatim>\<open>math.MaxInt32\<close> entries, \<^verbatim>\<open>VerifyTotalOrder\<close> returns the map, the least
  hash-list length \<open>L\<close>, and \<^verbatim>\<open>correct = true\<close> exactly when at every index below
  \<open>L\<close> every peer's entry equals the calling peer's; and it removes the first \<open>L\<close>
  entries from every peer's hash list, changing nothing else.
\<close>

lemma VerifyTotalOrder_common_prefix:
  assumes "m \<noteq> []"
    and "distinct (map fst m)"
    and "distinct (map snd m)"
    and "allocated h m"
    and "id' \<in> fst ` set m"
    and "\<exists>p\<in>snd ` set m. length (peerList h p) \<le> MaxInt32"
    and "L = Min ((\<lambda>p. length (peerList h p)) ` snd ` set m)"
  shows "VerifyTotalOrder h id' m =
     Inr ((m,
           (\<forall>i<L. \<forall>p\<in>snd ` set m. peerList h p ! i = peerList h (the (map_of m id')) ! i),
           L),
          (\<lambda>a. if a \<in> snd ` set m
               then map_option (\<lambda>r. r\<lparr>hashList := drop L (hashList r)\<rparr>) (h a)
               else h a))"
proof -
  from assms(5) obtain self where self: "map_of m id' = Some self"
    by (metis map_of_eq_None_iff not_None_eq)
  have L: "commonLen h m = L"
    using commonLen_least [OF assms(1) assms(6)] assms(7) by simp
  show ?thesis
    using VerifyTotalOrder_result [OF assms(1) assms(3) assms(4) self] self
    unfolding L by simp
qed

text \<open>
  An instance: two peers with the hash lists \<open>[5, 6, 7]\<close> and \<open>[5, 6]\<close>. The common
  length is 2, the lists agree, and \<open>[7]\<close> and \<open>[]\<close> are left.
\<close>

lemma VerifyTotalOrder_two_peers:
  "VerifyTotalOrder (snd peersA) 1 (fst peersA) =
     Inr ((fst peersA, True, 2),
          [0 \<mapsto> \<lparr>validatorID = 1, hashList = [7], curID = 2\<rparr>,
           1 \<mapsto> \<lparr>validatorID = 2, hashList = [], curID = 1\<rparr>])"
  using VerifyTotalOrder_common_prefix [of "fst peersA" "snd peersA" 1 2]
  by (simp add: peersA_def allocated_def peerList_def MaxInt32_def all_less_2
      fun_eq_iff cong: if_cong)

text \<open>
  C9. The claim asks for the least hash-list length over all peers, which is what the
  first loop sets out to compute (\<^verbatim>\<open>Get the common length from all validators\<close>).
  The loop starts from \<^verbatim>\<open>math.MaxInt32\<close> and only lowers it, so it misses the least
  length when every list is longer: for a single peer whose hash list has 2147483648
  entries the least hash-list length is 2147483648, and \<^verbatim>\<open>VerifyTotalOrder\<close>
  returns the length 2147483647.
\<close>

theorem VerifyTotalOrder_long_list:
  "Min ((\<lambda>p. length (peerList (snd peersB) p)) ` snd ` set (fst peersB)) = 2147483648
   \<and> (\<exists>correct h'. VerifyTotalOrder (snd peersB) 1 (fst peersB) =
         Inr ((fst peersB, correct, 2147483647), h'))"
proof -
  have "commonLen (snd peersB) (fst peersB) = 2147483647"
    by (simp add: peersB_def commonLen_def peerList_def MaxInt32_def)
  then show ?thesis
    using VerifyTotalOrder_result [of "fst peersB" "snd peersB" 1 0]
    by (auto simp: peersB_def allocated_def peerList_def)
qed

end
